theory Spec2Isabelle
  imports Complex_Main "HOL-Library.Multiset"
begin

section \<open>Data model\<close>

text \<open>
  The development embeds the script parts of \<^verbatim>\<open>ScienceExperimentWorkbench.svelte\<close>
  (the experiment workbench: drag and drop, the simulated execution of phases and the
  overall progress) and of \<^verbatim>\<open>WorkflowBuilder.svelte\<close> (the plain workflow list). The
  third source file is a variant of the workbench whose icons are components instead of
  SVG strings; its handlers compute the same, so it has no definitions of its own.

  Conventions of the embedding:
  \<^item> a JavaScript \<^verbatim>\<open>number\<close> is an exact rational (\<^typ>\<open>rat\<close>): the rounding of
    IEEE doubles is not modelled, \<^verbatim>\<open>NaN\<close> and the infinities do not exist;
  \<^item> \<^verbatim>\<open>Math.round\<close> is \<^const>\<open>round\<close> (\<open>\<lfloor>x + 1/2\<rfloor>\<close>, a half rounds up, as in JavaScript);
  \<^item> every handler takes the component state and returns the new one;
  \<^item> what the browser supplies is a parameter: the fresh identifier \<^verbatim>\<open>uuidv7()\<close>, and
    the readings of the clock in a record \<open>env\<close>;
  \<^item> \<^verbatim>\<open>findIndex\<close> returns \<open>None\<close> for JavaScript's \<open>-1\<close>.
\<close>

datatype PhaseStatus = pending | running | paused | completed | failed

record PaletteBlock =
  block_type :: string
  block_label :: string
  block_icon :: string
  block_color :: string
  defaultText :: string
  block_estimatedDuration :: rat

record ExperimentPhase =
  phase_id :: string
  phase_type :: string
  phase_label :: string
  phase_icon :: string
  phase_color :: string
  phase_text :: string
  status :: PhaseStatus
  progress :: rat
  estimatedDuration :: rat
  actualDuration :: "string option"
  logs :: "string list"
  canBeRun :: bool

text \<open>
  \<^verbatim>\<open>DraggingItem\<close> is a union tagged by its field \<^verbatim>\<open>type\<close>; \<open>None\<close> is \<^verbatim>\<open>null\<close>.
  A palette item carries the dragged block, a workflow item the id and the dragged phase.
\<close>

datatype DraggingItem = paletteItem PaletteBlock | workflowItem string ExperimentPhase


text \<open>
  The callback that \<^verbatim>\<open>togglePhaseExecution\<close> hands to \<^verbatim>\<open>window.setInterval\<close> closes over
  \<^verbatim>\<open>p.id\<close>, \<^verbatim>\<open>progressIncrement\<close> and \<^verbatim>\<open>startTime\<close>. An interval is the record of the
  three and of the delay in milliseconds given with the callback.
\<close>

record interval_callback =
  cb_phase_id :: string
  cb_progressIncrement :: rat
  cb_startTime :: int
  cb_delay :: nat

text \<open>
  The readings of the clock during one handler turn: \<^verbatim>\<open>Date.now()\<close> in milliseconds,
  \<^verbatim>\<open>new Date().toLocaleTimeString()\<close>, and the formatter \<^verbatim>\<open>toFixed(2)\<close>.
\<close>

record env =
  dateNow :: int
  localeTimeString :: string
  toFixed2 :: "rat \<Rightarrow> string"

text \<open>
  The state of the component: the store \<^verbatim>\<open>experimentPhases\<close>, the three drag variables,
  the record \<^verbatim>\<open>phaseIntervals\<close> (phase id to interval handle), and the window's table of
  active intervals (handle to callback) with the next handle \<^verbatim>\<open>setInterval\<close> returns.
  The handles of a browser are positive integers: the first one is 1.
\<close>

record workbench =
  experimentPhases :: "ExperimentPhase list"
  draggingItem :: "DraggingItem option"
  dragOverCanvas :: bool
  dragOverPhaseId :: "string option"
  phaseIntervals :: "string \<rightharpoonup> nat"
  intervals :: "nat \<rightharpoonup> interval_callback"
  nextHandle :: nat

definition initialWorkbench :: workbench where
  "initialWorkbench =
     \<lparr>experimentPhases = [], draggingItem = None, dragOverCanvas = False,
      dragOverPhaseId = None, phaseIntervals = Map.empty, intervals = Map.empty,
      nextHandle = 1\<rparr>"

section \<open>Array helpers\<close>

fun findIndex :: "('a \<Rightarrow> bool) \<Rightarrow> 'a list \<Rightarrow> nat option" where
  "findIndex P [] = None"
| "findIndex P (x # xs) =
     (if P x then Some 0 else map_option Suc (findIndex P xs))"

text \<open>\<^verbatim>\<open>xs.splice(i, 1)\<close>: the array without the element at \<open>i\<close>.\<close>

definition splice_remove :: "nat \<Rightarrow> 'a list \<Rightarrow> 'a list" where
  "splice_remove i xs = take i xs @ drop (Suc i) xs"

text \<open>\<^verbatim>\<open>xs.splice(i, 0, x)\<close>: \<open>x\<close> inserted at \<open>i\<close>; a start beyond the end appends.\<close>

definition splice_insert :: "nat \<Rightarrow> 'a \<Rightarrow> 'a list \<Rightarrow> 'a list" where
  "splice_insert i x xs = take i xs @ x # drop i xs"

section \<open>Overall progress\<close>


section \<open>Drag and drop on the experiment canvas\<close>

definition handlePaletteDragStart :: "PaletteBlock \<Rightarrow> workbench \<Rightarrow> workbench" where
  "handlePaletteDragStart blockType st =
     st\<lparr>draggingItem := Some (paletteItem blockType),
        dragOverCanvas := False, dragOverPhaseId := None\<rparr>"

definition handleCanvasDragEnter :: "workbench \<Rightarrow> workbench" where
  "handleCanvasDragEnter st = st\<lparr>dragOverCanvas := True\<rparr>"

definition handleCanvasDragOver :: "workbench \<Rightarrow> workbench" where
  "handleCanvasDragOver st = st\<lparr>dragOverCanvas := True\<rparr>"

text \<open>The flag says whether \<^verbatim>\<open>event.currentTarget === event.target\<close>.\<close>

definition handleCanvasDragLeave :: "bool \<Rightarrow> workbench \<Rightarrow> workbench" where
  "handleCanvasDragLeave onCanvasItself st =
     (if onCanvasItself then st\<lparr>dragOverCanvas := False\<rparr> else st)"

text \<open>
  The phase built on a drop from the palette. \<^verbatim>\<open>a || b\<close> yields \<open>b\<close> when \<open>a\<close> is the empty
  string or the number \<open>0\<close>.
\<close>

definition newPhase :: "string \<Rightarrow> PaletteBlock \<Rightarrow> ExperimentPhase" where
  "newPhase uuid block =
     \<lparr>phase_id = uuid,
      phase_type = block_type block,
      phase_label = block_label block,
      phase_icon = block_icon block,
      phase_color = block_color block,
      phase_text = (if defaultText block \<noteq> [] then defaultText block
                    else ''New '' @ block_label block @ '' Phase''),
      status = pending,
      progress = 0,
      estimatedDuration = (if block_estimatedDuration block \<noteq> 0
                           then block_estimatedDuration block else 10),
      actualDuration = None,
      logs = [],
      canBeRun = True\<rparr>"

definition handleCanvasDrop :: "string \<Rightarrow> workbench \<Rightarrow> workbench" where
  "handleCanvasDrop uuid st =
     (let st1 = (case draggingItem st of
                   Some (paletteItem block) \<Rightarrow>
                     st\<lparr>experimentPhases := experimentPhases st @ [newPhase uuid block]\<rparr>
                 | _ \<Rightarrow> st)
      in st1\<lparr>dragOverCanvas := False\<rparr>)"

definition handlePhaseDragStart :: "ExperimentPhase \<Rightarrow> workbench \<Rightarrow> workbench" where
  "handlePhaseDragStart phase st =
     st\<lparr>draggingItem := Some (workflowItem (phase_id phase) phase),
        dragOverPhaseId := None\<rparr>"

definition handlePhaseDragEnter :: "string \<Rightarrow> workbench \<Rightarrow> workbench" where
  "handlePhaseDragEnter targetPhaseId st =
     (case draggingItem st of
        Some (workflowItem i d) \<Rightarrow>
          (if i \<noteq> targetPhaseId then st\<lparr>dragOverPhaseId := Some targetPhaseId\<rparr> else st)
      | _ \<Rightarrow> st)"

definition handlePhaseDragLeave :: "string \<Rightarrow> workbench \<Rightarrow> workbench" where
  "handlePhaseDragLeave targetPhaseId st =
     (if dragOverPhaseId st = Some targetPhaseId then st\<lparr>dragOverPhaseId := None\<rparr> else st)"

text \<open>
  The function given to \<^verbatim>\<open>experimentPhases.update\<close> in \<^verbatim>\<open>handlePhaseDrop\<close>: the target is
  looked up again after the dragged phase has been taken out.
\<close>

definition reorderPhases :: "string \<Rightarrow> string \<Rightarrow> ExperimentPhase list \<Rightarrow> ExperimentPhase list" where
  "reorderPhases sourcePhaseId targetPhaseId currentPhases =
     (case (findIndex (\<lambda>p. phase_id p = sourcePhaseId) currentPhases,
            findIndex (\<lambda>p. phase_id p = targetPhaseId) currentPhases) of
        (Some sourceIndex, Some targetIndex) \<Rightarrow>
          (let draggedPhase = currentPhases ! sourceIndex;
               rest = splice_remove sourceIndex currentPhases
           in case findIndex (\<lambda>p. phase_id p = targetPhaseId) rest of
                Some newTargetIndex \<Rightarrow> splice_insert newTargetIndex draggedPhase rest
              | None \<Rightarrow> rest @ [draggedPhase])
      | _ \<Rightarrow> currentPhases)"

definition handlePhaseDrop :: "string \<Rightarrow> workbench \<Rightarrow> workbench" where
  "handlePhaseDrop targetPhaseId st =
     (case draggingItem st of
        Some (workflowItem sourcePhaseId d) \<Rightarrow>
          (if sourcePhaseId = [] then st
           else if sourcePhaseId = targetPhaseId then st\<lparr>dragOverPhaseId := None\<rparr>
           else st\<lparr>experimentPhases :=
                       reorderPhases sourcePhaseId targetPhaseId (experimentPhases st),
                     dragOverPhaseId := None\<rparr>)
      | _ \<Rightarrow> st)"

definition handleDragEnd :: "workbench \<Rightarrow> workbench" where
  "handleDragEnd st =
     st\<lparr>draggingItem := None, dragOverCanvas := False, dragOverPhaseId := None\<rparr>"

section \<open>The workflow builder\<close>

record WorkflowBlock =
  wb_type :: string
  wb_label :: string
  wb_icon :: string
  wb_color :: string
  wb_defaultText :: string

record WorkflowStep =
  step_id :: string
  step_type :: string
  step_label :: string
  step_icon :: string
  step_color :: string
  step_text :: string

datatype WorkflowDraggingItem =
  wfPaletteItem WorkflowBlock | wfWorkflowItem string WorkflowStep

record builder =
  workflowSteps :: "WorkflowStep list"
  wf_draggingItem :: "WorkflowDraggingItem option"
  wf_dragOverCanvas :: bool
  dragOverWorkflowItemId :: "string option"

definition newStep :: "string \<Rightarrow> WorkflowBlock \<Rightarrow> WorkflowStep" where
  "newStep uuid block =
     \<lparr>step_id = uuid,
      step_type = wb_type block,
      step_label = wb_label block,
      step_icon = wb_icon block,
      step_color = wb_color block,
      step_text = (if wb_defaultText block \<noteq> [] then wb_defaultText block
                   else ''New '' @ wb_label block @ '' Step'')\<rparr>"

definition wf_handleCanvasDrop :: "string \<Rightarrow> builder \<Rightarrow> builder" where
  "wf_handleCanvasDrop uuid st =
     (let st1 = (case wf_draggingItem st of
                   Some (wfPaletteItem block) \<Rightarrow>
                     st\<lparr>workflowSteps := workflowSteps st @ [newStep uuid block]\<rparr>
                 | _ \<Rightarrow> st)
      in st1\<lparr>wf_dragOverCanvas := False\<rparr>)"

text \<open>
  The function given to \<^verbatim>\<open>workflowSteps.update\<close> in \<^verbatim>\<open>handleWorkflowItemDrop\<close>: the dragged
  step goes to the index the target had before the removal.
\<close>

definition reorderSteps :: "string \<Rightarrow> string \<Rightarrow> WorkflowStep list \<Rightarrow> WorkflowStep list" where
  "reorderSteps sourceItemId targetItemId currentSteps =
     (case (findIndex (\<lambda>s. step_id s = sourceItemId) currentSteps,
            findIndex (\<lambda>s. step_id s = targetItemId) currentSteps) of
        (Some sourceIndex, Some targetIndex) \<Rightarrow>
          (let draggedStep = currentSteps ! sourceIndex;
               rest = splice_remove sourceIndex currentSteps
           in splice_insert targetIndex draggedStep rest)
      | _ \<Rightarrow> currentSteps)"

definition handleWorkflowItemDrop :: "string \<Rightarrow> builder \<Rightarrow> builder" where
  "handleWorkflowItemDrop targetItemId st =
     (case wf_draggingItem st of
        Some (wfWorkflowItem sourceItemId d) \<Rightarrow>
          (if sourceItemId = [] then st
           else if sourceItemId = targetItemId then st\<lparr>dragOverWorkflowItemId := None\<rparr>
           else st\<lparr>workflowSteps :=
                       reorderSteps sourceItemId targetItemId (workflowSteps st),
                     dragOverWorkflowItemId := None\<rparr>)
      | _ \<Rightarrow> st)"

section \<open>Simulated execution of a phase\<close>

text \<open>
  \<^verbatim>\<open>window.setInterval\<close> returns a new handle and records the callback with its delay;
  \<^verbatim>\<open>clearInterval\<close> forgets the handle (and does nothing for an unknown one).
\<close>

definition setInterval :: "interval_callback \<Rightarrow> workbench \<Rightarrow> nat \<times> workbench" where
  "setInterval cb st =
     (nextHandle st,
      st\<lparr>intervals := (intervals st)(nextHandle st \<mapsto> cb), nextHandle := Suc (nextHandle st)\<rparr>)"

definition clearInterval :: "nat \<Rightarrow> workbench \<Rightarrow> workbench" where
  "clearInterval h st = st\<lparr>intervals := (intervals st)(h := None)\<rparr>"

text \<open>\<^verbatim>\<open>if (phaseIntervals[id]) clearInterval(phaseIntervals[id])\<close>: a handle \<open>0\<close> is falsy.\<close>

definition clearRegistered :: "string \<Rightarrow> workbench \<Rightarrow> workbench" where
  "clearRegistered i st =
     (case phaseIntervals st i of
        Some h \<Rightarrow> if h \<noteq> 0 then clearInterval h st else st
      | None \<Rightarrow> st)"

text \<open>\<^verbatim>\<open>delete phaseIntervals[id]\<close>\<close>

definition deleteRegistered :: "string \<Rightarrow> workbench \<Rightarrow> workbench" where
  "deleteRegistered i st = st\<lparr>phaseIntervals := (phaseIntervals st)(i := None)\<rparr>"

text \<open>
  \<^verbatim>\<open>phases.map(f)\<close> where \<open>f\<close> also changes the component's variables: the state is
  threaded through the calls, from the first element to the last.
\<close>

fun mapPhases ::
  "(ExperimentPhase \<Rightarrow> workbench \<Rightarrow> ExperimentPhase \<times> workbench) \<Rightarrow>
   ExperimentPhase list \<Rightarrow> workbench \<Rightarrow> ExperimentPhase list \<times> workbench" where
  "mapPhases f [] st = ([], st)"
| "mapPhases f (p # ps) st =
     (case f p st of (p', st1) \<Rightarrow>
        (case mapPhases f ps st1 of (ps', st2) \<Rightarrow> (p' # ps', st2)))"

text \<open>The body of the \<^verbatim>\<open>map\<close> callback of the interval, for one phase.\<close>

definition tickOne ::
  "interval_callback \<Rightarrow> env \<Rightarrow> ExperimentPhase \<Rightarrow> workbench \<Rightarrow> ExperimentPhase \<times> workbench" where
  "tickOne cb e phaseToUpdate st =
     (if phase_id phaseToUpdate = cb_phase_id cb \<and> status phaseToUpdate = running then
        (let newProgress = min 100 (progress phaseToUpdate + cb_progressIncrement cb)
         in if newProgress \<ge> 100 then
              (let st1 = (case phaseIntervals st (cb_phase_id cb) of
                            Some h \<Rightarrow> clearInterval h st
                          | None \<Rightarrow> st);
                   st2 = deleteRegistered (cb_phase_id cb) st1;
                   endTime = dateNow e;
                   duration = toFixed2 e (of_int (endTime - cb_startTime cb) / 1000)
               in (phaseToUpdate\<lparr>progress := 100,
                                   status := completed,
                                   actualDuration := Some (duration @ ''s''),
                                   logs := logs phaseToUpdate @
                                     [''Phase completed in '' @ duration @ ''s at '' @
                                      localeTimeString e]\<rparr>,
                   st2))
            else (phaseToUpdate\<lparr>progress := newProgress\<rparr>, st))
      else (phaseToUpdate, st))"

text \<open>The browser runs the callback of the interval \<open>h\<close>, if that interval is still active.\<close>

definition fireInterval :: "nat \<Rightarrow> env \<Rightarrow> workbench \<Rightarrow> workbench" where
  "fireInterval h e st =
     (case intervals st h of
        None \<Rightarrow> st
      | Some cb \<Rightarrow>
          (case mapPhases (tickOne cb e) (experimentPhases st) st of
             (phases', st1) \<Rightarrow> st1\<lparr>experimentPhases := phases'\<rparr>))"

text \<open>The body of the \<^verbatim>\<open>map\<close> callback of \<^verbatim>\<open>togglePhaseExecution\<close>, for one phase.\<close>

definition toggleOne ::
  "string \<Rightarrow> env \<Rightarrow> ExperimentPhase \<Rightarrow> workbench \<Rightarrow> ExperimentPhase \<times> workbench" where
  "toggleOne phaseId e p st =
     (if phase_id p = phaseId then
        (if status p = running then
           (let st1 = clearRegistered (phase_id p) st;
                st2 = deleteRegistered (phase_id p) st1
            in (p\<lparr>status := paused\<rparr>, st2))
         else if status p = pending \<or> status p = paused \<or> status p = failed then
           (let st1 = clearRegistered (phase_id p) st;
                startTime = dateNow e;
                steps = estimatedDuration p * (1000 / 200);
                progressIncrement = (if steps > 0 then 100 / steps else 100)
            in case setInterval \<lparr>cb_phase_id = phase_id p,
                                  cb_progressIncrement = progressIncrement,
                                  cb_startTime = startTime,
                                  cb_delay = 200\<rparr> st1 of
                 (h, st2) \<Rightarrow>
                   (p\<lparr>status := running,
                      progress := (if status p = paused then progress p else 0),
                      logs := logs p @ [''Phase execution started at '' @ localeTimeString e]\<rparr>,
                    st2\<lparr>phaseIntervals := (phaseIntervals st2)(phase_id p \<mapsto> h)\<rparr>))
         else if status p = completed then
           (p\<lparr>status := pending,
              progress := 0,
              actualDuration := None,
              logs := [''Phase reset at '' @ localeTimeString e]\<rparr>,
            st)
         else (p, st))
      else (p, st))"

definition togglePhaseExecution :: "string \<Rightarrow> env \<Rightarrow> workbench \<Rightarrow> workbench" where
  "togglePhaseExecution phaseId e st =
     (case mapPhases (toggleOne phaseId e) (experimentPhases st) st of
        (phases', st1) \<Rightarrow> st1\<lparr>experimentPhases := phases'\<rparr>)"

definition removePhase :: "string \<Rightarrow> workbench \<Rightarrow> workbench" where
  "removePhase phaseId st =
     (let st1 = st\<lparr>experimentPhases :=
                      filter (\<lambda>p. phase_id p \<noteq> phaseId) (experimentPhases st)\<rparr>
      in case phaseIntervals st1 phaseId of
           Some h \<Rightarrow>
             if h \<noteq> 0 then deleteRegistered phaseId (clearInterval h st1) else st1
         | None \<Rightarrow> st1)"

definition updatePhaseText :: "string \<Rightarrow> string \<Rightarrow> workbench \<Rightarrow> workbench" where
  "updatePhaseText phaseId newText st =
     st\<lparr>experimentPhases :=
          map (\<lambda>p. if phase_id p = phaseId then p\<lparr>phase_text := newText\<rparr> else p)
            (experimentPhases st)\<rparr>"

section \<open>Events and reachable states\<close>

text \<open>
  One constructor for each handler the markup binds to a gesture, and one for an interval
  that fires. \<^verbatim>\<open>handlePhaseDragOver\<close> only writes the event's drop effect and has no
  constructor.
\<close>

datatype event =
    PaletteDragStart PaletteBlock
  | CanvasDragEnter
  | CanvasDragOver
  | CanvasDragLeave bool
  | CanvasDrop string
  | PhaseDragStart ExperimentPhase
  | PhaseDragEnter string
  | PhaseDragLeave string
  | PhaseDrop string
  | DragEnd
  | RemovePhase string
  | UpdatePhaseText string string
  | TogglePhaseExecution string env
  | IntervalFires nat env

fun handle :: "event \<Rightarrow> workbench \<Rightarrow> workbench" where
  "handle (PaletteDragStart b) st = handlePaletteDragStart b st"
| "handle CanvasDragEnter st = handleCanvasDragEnter st"
| "handle CanvasDragOver st = handleCanvasDragOver st"
| "handle (CanvasDragLeave c) st = handleCanvasDragLeave c st"
| "handle (CanvasDrop uuid) st = handleCanvasDrop uuid st"
| "handle (PhaseDragStart p) st = handlePhaseDragStart p st"
| "handle (PhaseDragEnter i) st = handlePhaseDragEnter i st"
| "handle (PhaseDragLeave i) st = handlePhaseDragLeave i st"
| "handle (PhaseDrop i) st = handlePhaseDrop i st"
| "handle DragEnd st = handleDragEnd st"
| "handle (RemovePhase i) st = removePhase i st"
| "handle (UpdatePhaseText i t) st = updatePhaseText i t st"
| "handle (TogglePhaseExecution i e) st = togglePhaseExecution i e st"
| "handle (IntervalFires h e) st = fireInterval h e st"

inductive reachable :: "workbench \<Rightarrow> bool" where
  reachable_init: "reachable initialWorkbench"
| reachable_step: "reachable st \<Longrightarrow> reachable (handle ev st)"

section \<open>Running all phases\<close>

text \<open>
  \<^verbatim>\<open>runAllPhases\<close> is an \<^verbatim>\<open>async\<close> function: it runs until its first \<^verbatim>\<open>await\<close>, and the rest
  of its loop runs when the awaited promise is resolved. The promise is resolved by a
  subscriber of the store, which the store calls after every update with the new list of
  phases. What is left of a call is therefore the phase it waits for and the identifiers
  of its snapshot still to be visited; \<open>Idle\<close> is a call that has returned (or none).
\<close>

datatype orchestrator = Idle | Awaiting string "string list"

text \<open>
  The \<^verbatim>\<open>for\<close> loop from the identifier \<open>i\<close> of the snapshot on: look the phase up in the
  store as it is now, start it when it is pending or failed and suspend, else go on.
\<close>

fun runAllLoop :: "string list \<Rightarrow> env \<Rightarrow> workbench \<Rightarrow> workbench \<times> orchestrator" where
  "runAllLoop [] e st = (st, Idle)"
| "runAllLoop (i # rest) e st =
     (case find (\<lambda>p. phase_id p = i) (experimentPhases st) of
        Some currentState \<Rightarrow>
          if status currentState = pending \<or> status currentState = failed
          then (togglePhaseExecution i e st, Awaiting i rest)
          else runAllLoop rest e st
      | None \<Rightarrow> runAllLoop rest e st)"

definition runAllPhases :: "env \<Rightarrow> workbench \<Rightarrow> workbench \<times> orchestrator" where
  "runAllPhases e st =
     (let phasesToRun = filter (\<lambda>p. status p = pending \<or> status p = failed)
                          (experimentPhases st)
      in runAllLoop (map phase_id phasesToRun) e st)"

text \<open>
  The subscriber of the awaited promise, called with the store's value after an update:
  when the awaited phase is completed or failed the promise is resolved and the loop goes
  on (in the same turn of the event loop, before any other handler runs).
\<close>

fun storeUpdated :: "env \<Rightarrow> workbench \<times> orchestrator \<Rightarrow> workbench \<times> orchestrator" where
  "storeUpdated e (st, Idle) = (st, Idle)"
| "storeUpdated e (st, Awaiting i rest) =
     (case find (\<lambda>p. phase_id p = i) (experimentPhases st) of
        Some currentPhaseState \<Rightarrow>
          if status currentPhaseState = completed \<or> status currentPhaseState = failed
          then runAllLoop rest e st
          else (st, Awaiting i rest)
      | None \<Rightarrow> (st, Awaiting i rest))"

text \<open>
  An interval fires while a call of \<^verbatim>\<open>runAllPhases\<close> is suspended: its callback updates the
  store, and the store calls the subscriber. An interval that is no longer active does
  nothing.
\<close>

definition fireIntervalDuringRunAll ::
  "nat \<times> env \<Rightarrow> workbench \<times> orchestrator \<Rightarrow> workbench \<times> orchestrator" where
  "fireIntervalDuringRunAll he so =
     (case he of (h, e) \<Rightarrow>
        (case so of (st, orch) \<Rightarrow>
           (case intervals st h of
              None \<Rightarrow> (st, orch)
            | Some cb \<Rightarrow> storeUpdated e (fireInterval h e st, orch))))"

section \<open>Example data\<close>

text \<open>Concrete blocks, phases and states, used where a property is evaluated.\<close>

definition exampleBlock :: "string \<Rightarrow> rat \<Rightarrow> PaletteBlock" where
  "exampleBlock txt d =
     \<lparr>block_type = ''SAMPLE_PREP'', block_label = ''Sample Preparation'',
      block_icon = ''<svg/>'', block_color = ''bg-sky-500'',
      defaultText = txt, block_estimatedDuration = d\<rparr>"

definition exampleWorkflowBlock :: WorkflowBlock where
  "exampleWorkflowBlock =
     \<lparr>wb_type = ''LOAD_DATA'', wb_label = ''Load Data'', wb_icon = ''#'',
      wb_color = ''bg-blue-500'', wb_defaultText = ''Load Data from Source''\<rparr>"

definition examplePhase :: "string \<Rightarrow> PhaseStatus \<Rightarrow> rat \<Rightarrow> rat \<Rightarrow> ExperimentPhase" where
  "examplePhase i s pr d =
     \<lparr>phase_id = i, phase_type = ''DATA_ACQUISITION'', phase_label = ''Data Acquisition'',
      phase_icon = ''<svg/>'', phase_color = ''bg-indigo-500'',
      phase_text = ''Collect data from sensors/instruments...'',
      status = s, progress = pr, estimatedDuration = d,
      actualDuration = None, logs = [], canBeRun = True\<rparr>"

definition exampleStep :: "string \<Rightarrow> WorkflowStep" where
  "exampleStep i = newStep i exampleWorkflowBlock"

definition exampleBuilder :: "WorkflowStep list \<Rightarrow> WorkflowDraggingItem option \<Rightarrow> builder" where
  "exampleBuilder steps d =
     \<lparr>workflowSteps = steps, wf_draggingItem = d, wf_dragOverCanvas = False,
      dragOverWorkflowItemId = None\<rparr>"

text \<open>
  The clock at \<open>t\<close> milliseconds. The formatting of numbers and of the time of day is
  not modelled: this clock prints every duration as 10.00 and every time as 12:00:00.
\<close>

definition exampleEnv :: "int \<Rightarrow> env" where
  "exampleEnv t =
     \<lparr>dateNow = t, localeTimeString = ''12:00:00'', toFixed2 = (\<lambda>x. ''10.00'')\<rparr>"

text \<open>The workbench with the given phases on the canvas, nothing dragged and no interval.\<close>

definition exampleWorkbench :: "ExperimentPhase list \<Rightarrow> workbench" where
  "exampleWorkbench ps = initialWorkbench\<lparr>experimentPhases := ps\<rparr>"


section \<open>Invariants\<close>

text \<open>A phase is settled when its progress is 100 exactly if it is completed.\<close>

definition settled :: "ExperimentPhase \<Rightarrow> bool" where
  "settled p = ((progress p = 100) = (status p = completed))"

text \<open>
  The bookkeeping of the intervals: every active interval is the one registered in
  \<^verbatim>\<open>phaseIntervals\<close> for the phase its callback names, no handle is 0, and the handles
  \<^verbatim>\<open>setInterval\<close> has yet to give out are not active.
\<close>

definition timers_inv :: "workbench \<Rightarrow> bool" where
  "timers_inv st =
     ((\<forall>h cb. intervals st h = Some cb \<longrightarrow> phaseIntervals st (cb_phase_id cb) = Some h) \<and>
      intervals st 0 = None \<and>
      (\<forall>i. phaseIntervals st i \<noteq> Some 0) \<and>
      (\<forall>h. nextHandle st \<le> h \<longrightarrow> intervals st h = None) \<and>
      0 < nextHandle st)"

text \<open>No interval is registered for the phase \<open>i\<close>, and no active interval names it.\<close>

definition no_timer_for :: "string \<Rightarrow> workbench \<Rightarrow> bool" where
  "no_timer_for i st =
     (phaseIntervals st i = None \<and> (\<forall>h cb. intervals st h = Some cb \<longrightarrow> cb_phase_id cb \<noteq> i))"

text \<open>A sequence of intervals firing, each with the clock's readings at that time.\<close>

definition fireIntervals :: "(nat \<times> env) list \<Rightarrow> workbench \<Rightarrow> workbench" where
  "fireIntervals hes st = fold (\<lambda>he. fireInterval (fst he) (snd he)) hes st"

text \<open>
  What \<^verbatim>\<open>runAllPhases\<close> checks before it starts a phase: the phase with the id \<open>j\<close> is in
  the store and is pending or failed now.
\<close>

definition startable :: "string \<Rightarrow> workbench \<Rightarrow> bool" where
  "startable j st =
     (case find (\<lambda>p. phase_id p = j) (experimentPhases st) of
        Some c \<Rightarrow> status c = pending \<or> status c = failed
      | None \<Rightarrow> False)"

text \<open>
  The course of one call of \<^verbatim>\<open>runAllPhases\<close> over two phases \<open>a\<close> and \<open>b\<close>: first \<open>a\<close> runs,
  \<open>b\<close> is pending and the call waits for \<open>a\<close>; then \<open>a\<close> is completed, \<open>b\<close> runs and the
  call waits for \<open>b\<close>; at last both are completed and the call has returned.
\<close>

definition twoPhaseRun :: "string \<Rightarrow> string \<Rightarrow> workbench \<times> orchestrator \<Rightarrow> bool" where
  "twoPhaseRun a b so =
     (\<exists>A B. experimentPhases (fst so) = [A, B] \<and> phase_id A = a \<and> phase_id B = b \<and>
        ((status A = running \<and> status B = pending \<and> snd so = Awaiting a [b]) \<or>
         (status A = completed \<and> status B = running \<and> snd so = Awaiting b []) \<or>
         (status A = completed \<and> status B = completed \<and> snd so = Idle)))"

section \<open>Facts about the array helpers\<close>

lemma findIndex_None: "findIndex P xs = None \<longleftrightarrow> (\<forall>x\<in>set xs. \<not> P x)"
  by (induction xs) auto

lemma findIndex_Some:
  "findIndex P xs = Some i \<Longrightarrow> i < length xs \<and> P (xs ! i) \<and> (\<forall>x\<in>set (take i xs). \<not> P x)"
proof (induction xs arbitrary: i)
  case Nil
  then show ?case by simp
next
  case (Cons x xs)
  show ?case
  proof (cases "P x")
    case True
    with Cons.prems show ?thesis by simp
  next
    case False
    with Cons.prems obtain j where j: "findIndex P xs = Some j" "i = Suc j"
      by auto
    from Cons.IH[OF j(1)] False j(2) show ?thesis by simp
  qed
qed

lemma findIndex_exists: "\<exists>x\<in>set xs. P x \<Longrightarrow> \<exists>i. findIndex P xs = Some i"
  using findIndex_None[of P xs] by (cases "findIndex P xs") auto

lemma splice_remove_decomp:
  "i < length xs \<Longrightarrow> xs = take i xs @ xs ! i # drop (Suc i) xs"
  by (simp add: id_take_nth_drop)

lemma mset_splice_remove:
  "i < length xs \<Longrightarrow> mset (splice_remove i xs) + {#xs ! i#} = mset xs"
proof -
  assume i: "i < length xs"
  have "mset xs = mset (take i xs @ xs ! i # drop (Suc i) xs)"
    using splice_remove_decomp[OF i] by simp
  then show ?thesis by (simp add: splice_remove_def)
qed

lemma filter_splice_remove:
  "i < length xs \<Longrightarrow> \<not> Q (xs ! i) \<Longrightarrow> filter Q (splice_remove i xs) = filter Q xs"
proof -
  assume i: "i < length xs" and q: "\<not> Q (xs ! i)"
  have "filter Q xs = filter Q (take i xs @ xs ! i # drop (Suc i) xs)"
    using splice_remove_decomp[OF i] by simp
  with q show ?thesis by (simp add: splice_remove_def)
qed

lemma mset_splice_insert: "mset (splice_insert k x ys) = mset ys + {#x#}"
proof -
  have "mset ys = mset (take k ys @ drop k ys)" by simp
  then show ?thesis unfolding splice_insert_def by (simp del: append_take_drop_id)
qed

lemma filter_splice_insert: "\<not> Q x \<Longrightarrow> filter Q (splice_insert k x ys) = filter Q ys"
proof -
  assume q: "\<not> Q x"
  have "filter Q ys = filter Q (take k ys @ drop k ys)" by simp
  with q show ?thesis unfolding splice_insert_def by (simp del: append_take_drop_id)
qed

section \<open>Reordering by a drop on an item\<close>

text \<open>
  The reordering of the experiment workbench, for a source and a target that differ and
  are both on the canvas: the dragged phase stands immediately before the (first) phase
  with the target's id, the phases are the same as a multiset, and the phases other than
  the source keep their order.
\<close>

lemma reorderPhases_moves_before:
  assumes ne: "src \<noteq> tgt"
    and s: "src \<in> phase_id ` set xs"
    and t: "tgt \<in> phase_id ` set xs"
  shows "\<exists>pre d u post.
           reorderPhases src tgt xs = pre @ d # u # post \<and>
           phase_id d = src \<and> phase_id u = tgt \<and> tgt \<notin> phase_id ` set pre"
    and "mset (reorderPhases src tgt xs) = mset xs"
    and "filter (\<lambda>p. phase_id p \<noteq> src) (reorderPhases src tgt xs) =
         filter (\<lambda>p. phase_id p \<noteq> src) xs"
proof -
  from s obtain i where i: "findIndex (\<lambda>p. phase_id p = src) xs = Some i"
    using findIndex_exists[of xs "\<lambda>p. phase_id p = src"] by auto
  from t obtain j where j: "findIndex (\<lambda>p. phase_id p = tgt) xs = Some j"
    using findIndex_exists[of xs "\<lambda>p. phase_id p = tgt"] by auto
  define d where "d = xs ! i"
  define rest where "rest = splice_remove i xs"
  from findIndex_Some[OF i] have il: "i < length xs" and di: "phase_id d = src"
    by (simp_all add: d_def)
  have ms: "mset rest + {#d#} = mset xs"
    unfolding rest_def d_def by (rule mset_splice_remove[OF il])
  from t obtain q where q: "q \<in> set xs" "phase_id q = tgt" by auto
  from q(1) have "q \<in># mset rest + {#d#}" using ms by simp
  with q(2) di ne have "q \<in> set rest" by auto
  with q(2) obtain k where k: "findIndex (\<lambda>p. phase_id p = tgt) rest = Some k"
    using findIndex_exists[of rest "\<lambda>p. phase_id p = tgt"] by auto
  have res: "reorderPhases src tgt xs = splice_insert k d rest"
    using i j k by (simp add: reorderPhases_def d_def rest_def)
  from findIndex_Some[OF k] have kl: "k < length rest" and uk: "phase_id (rest ! k) = tgt"
    and pre: "\<forall>x\<in>set (take k rest). phase_id x \<noteq> tgt"
    by simp_all
  have "splice_insert k d rest = take k rest @ d # rest ! k # drop (Suc k) rest"
    using kl by (simp add: splice_insert_def Cons_nth_drop_Suc)
  moreover have "tgt \<notin> phase_id ` set (take k rest)"
    using pre by auto
  ultimately have "reorderPhases src tgt xs = take k rest @ d # rest ! k # drop (Suc k) rest \<and>
           phase_id d = src \<and> phase_id (rest ! k) = tgt \<and> tgt \<notin> phase_id ` set (take k rest)"
    using res di uk by simp
  then show "\<exists>pre d u post.
           reorderPhases src tgt xs = pre @ d # u # post \<and>
           phase_id d = src \<and> phase_id u = tgt \<and> tgt \<notin> phase_id ` set pre"
    by blast
  show "mset (reorderPhases src tgt xs) = mset xs"
    using res ms by (simp add: mset_splice_insert)
  have "filter (\<lambda>p. phase_id p \<noteq> src) (splice_insert k d rest) =
        filter (\<lambda>p. phase_id p \<noteq> src) rest"
    using di by (simp add: filter_splice_insert)
  also have "\<dots> = filter (\<lambda>p. phase_id p \<noteq> src) xs"
    unfolding rest_def using il di by (simp add: filter_splice_remove d_def)
  finally show "filter (\<lambda>p. phase_id p \<noteq> src) (reorderPhases src tgt xs) =
         filter (\<lambda>p. phase_id p \<noteq> src) xs"
    using res by simp
qed

lemma reorderPhases_absent:
  "src \<notin> phase_id ` set xs \<or> tgt \<notin> phase_id ` set xs \<Longrightarrow> reorderPhases src tgt xs = xs"
proof -
  assume "src \<notin> phase_id ` set xs \<or> tgt \<notin> phase_id ` set xs"
  then have "findIndex (\<lambda>p. phase_id p = src) xs = None \<or>
             findIndex (\<lambda>p. phase_id p = tgt) xs = None"
    by (auto simp: findIndex_None)
  then show ?thesis
    by (auto simp: reorderPhases_def split: option.splits)
qed

lemma reorderSteps_absent:
  "src \<notin> step_id ` set xs \<or> tgt \<notin> step_id ` set xs \<Longrightarrow> reorderSteps src tgt xs = xs"
proof -
  assume "src \<notin> step_id ` set xs \<or> tgt \<notin> step_id ` set xs"
  then have "findIndex (\<lambda>p. step_id p = src) xs = None \<or>
             findIndex (\<lambda>p. step_id p = tgt) xs = None"
    by (auto simp: findIndex_None)
  then show ?thesis
    by (auto simp: reorderSteps_def split: option.splits)
qed

lemma set_reorderPhases: "src \<noteq> tgt \<Longrightarrow> set (reorderPhases src tgt xs) = set xs"
proof (cases "src \<in> phase_id ` set xs \<and> tgt \<in> phase_id ` set xs")
  case True
  assume "src \<noteq> tgt"
  with True have "mset (reorderPhases src tgt xs) = mset xs"
    by (intro reorderPhases_moves_before(2)) simp_all
  then show ?thesis by (rule mset_eq_setD)
next
  case False
  then show ?thesis using reorderPhases_absent[of src xs tgt] by auto
qed

text \<open>
  On the experiment workbench a drop of the dragged phase \<open>src\<close> on the phase \<open>tgt\<close> does
  what is asked of the reordering, wherever the two stand.
\<close>

lemma handlePhaseDrop_moves_before:
  assumes "draggingItem st = Some (workflowItem src d)" "src \<noteq> []" "src \<noteq> tgt"
    and "src \<in> phase_id ` set (experimentPhases st)"
    and "tgt \<in> phase_id ` set (experimentPhases st)"
  shows "\<exists>pre s u post.
           experimentPhases (handlePhaseDrop tgt st) = pre @ s # u # post \<and>
           phase_id s = src \<and> phase_id u = tgt \<and> tgt \<notin> phase_id ` set pre"
    and "mset (experimentPhases (handlePhaseDrop tgt st)) = mset (experimentPhases st)"
    and "filter (\<lambda>p. phase_id p \<noteq> src) (experimentPhases (handlePhaseDrop tgt st)) =
         filter (\<lambda>p. phase_id p \<noteq> src) (experimentPhases st)"
proof -
  have eq: "experimentPhases (handlePhaseDrop tgt st) =
            reorderPhases src tgt (experimentPhases st)"
    using assms(1-3) by (simp add: handlePhaseDrop_def)
  show "\<exists>pre s u post.
           experimentPhases (handlePhaseDrop tgt st) = pre @ s # u # post \<and>
           phase_id s = src \<and> phase_id u = tgt \<and> tgt \<notin> phase_id ` set pre"
    unfolding eq by (rule reorderPhases_moves_before(1)[OF assms(3-5)])
  show "mset (experimentPhases (handlePhaseDrop tgt st)) = mset (experimentPhases st)"
    unfolding eq by (rule reorderPhases_moves_before(2)[OF assms(3-5)])
  show "filter (\<lambda>p. phase_id p \<noteq> src) (experimentPhases (handlePhaseDrop tgt st)) =
         filter (\<lambda>p. phase_id p \<noteq> src) (experimentPhases st)"
    unfolding eq by (rule reorderPhases_moves_before(3)[OF assms(3-5)])
qed

lemma handlePhaseDrop_downward_example:
  "map phase_id (experimentPhases (handlePhaseDrop ''c''
      ((exampleWorkbench
          [examplePhase ''a'' pending 0 20, examplePhase ''b'' pending 0 20,
           examplePhase ''c'' pending 0 20])
        \<lparr>draggingItem := Some (workflowItem ''a'' (examplePhase ''a'' pending 0 20))\<rparr>)))
   = [''b'', ''a'', ''c'']"
  by (simp add: handlePhaseDrop_def reorderPhases_def exampleWorkbench_def
      initialWorkbench_def examplePhase_def splice_remove_def splice_insert_def)

text \<open>
  In the workflow builder a source that stands before its target ends immediately after
  it: the index of the target is the one found before the removal.
\<close>

lemma reorderSteps_downward:
  assumes i: "findIndex (\<lambda>s. step_id s = src) xs = Some i"
    and j: "findIndex (\<lambda>s. step_id s = tgt) xs = Some j"
    and ij: "i < j"
  shows "reorderSteps src tgt xs =
           (take i xs @ take (j - Suc i) (drop (Suc i) xs)) @ xs ! j # xs ! i # drop (Suc j) xs"
proof -
  from findIndex_Some[OF j] have jl: "j < length xs" by simp
  let ?mid = "drop (Suc i) xs"
  have len: "length (take i xs) = i" using ij jl by simp
  have m: "j - Suc i < length ?mid" using ij jl by simp
  have mj: "?mid ! (j - Suc i) = xs ! j" using ij jl by simp
  have t: "take (j - i) ?mid = take (j - Suc i) ?mid @ [xs ! j]"
    using take_Suc_conv_app_nth[OF m] mj ij by (simp add: Suc_diff_Suc)
  have d: "drop (j - i) ?mid = drop (Suc j) xs" using ij by simp
  have "reorderSteps src tgt xs = splice_insert j (xs ! i) (take i xs @ ?mid)"
    using i j by (simp add: reorderSteps_def splice_remove_def)
  also have "\<dots> = take i xs @ take (j - i) ?mid @ xs ! i # drop (j - i) ?mid"
    using ij len by (simp add: splice_insert_def)
  finally show ?thesis using t d by simp
qed

text \<open>
  Claim C1. A drop of a dragged item on another item of the list is to take the source
  out and put it back immediately before the target, the target's place being looked up
  after the removal. The workflow builder inserts at the index the target had before the
  removal instead: with the steps a, b, c on the canvas, dragging a and dropping it on c
  leaves b, c, a, where the source stands after the target and not before it. (The
  experiment workbench looks the target up again and yields b, a, c; see
  \<open>handlePhaseDrop_moves_before\<close> for its drops in general and \<open>reorderSteps_downward\<close>
  for the builder's.)
\<close>

theorem handleWorkflowItemDrop_downward_lands_after_target:
  "map step_id (workflowSteps (handleWorkflowItemDrop ''c''
      (exampleBuilder [exampleStep ''a'', exampleStep ''b'', exampleStep ''c'']
         (Some (wfWorkflowItem ''a'' (exampleStep ''a''))))))
   = [''b'', ''c'', ''a'']"
  by (simp add: handleWorkflowItemDrop_def reorderSteps_def exampleBuilder_def exampleStep_def
      newStep_def splice_remove_def splice_insert_def)

text \<open>
  Claim C9. A drop of the dragged item on itself, and a drop where the source or the
  target is not in the list, leave the list as it was; this holds for the experiment
  workbench and for the workflow builder.
\<close>

theorem drop_on_self_or_absent_unchanged:
  "(draggingItem st = Some (workflowItem src d) \<and>
    (src = tgt \<or> src \<notin> phase_id ` set (experimentPhases st) \<or>
     tgt \<notin> phase_id ` set (experimentPhases st))
    \<longrightarrow> experimentPhases (handlePhaseDrop tgt st) = experimentPhases st)
   \<and>
   (wf_draggingItem bst = Some (wfWorkflowItem src' d') \<and>
    (src' = tgt' \<or> src' \<notin> step_id ` set (workflowSteps bst) \<or>
     tgt' \<notin> step_id ` set (workflowSteps bst))
    \<longrightarrow> workflowSteps (handleWorkflowItemDrop tgt' bst) = workflowSteps bst)"
  using reorderPhases_absent[of src "experimentPhases st" tgt]
        reorderSteps_absent[of src' "workflowSteps bst" tgt']
  by (auto simp: handlePhaseDrop_def handleWorkflowItemDrop_def)

theorem drop_on_self_or_absent_unchanged_witness:
  "experimentPhases (handlePhaseDrop ''a''
      ((exampleWorkbench [examplePhase ''a'' pending 0 20, examplePhase ''b'' pending 0 20])
        \<lparr>draggingItem := Some (workflowItem ''a'' (examplePhase ''a'' pending 0 20))\<rparr>))
     = [examplePhase ''a'' pending 0 20, examplePhase ''b'' pending 0 20]
   \<and> workflowSteps (handleWorkflowItemDrop ''z''
        (exampleBuilder [exampleStep ''a'', exampleStep ''b'']
           (Some (wfWorkflowItem ''a'' (exampleStep ''a'')))))
     = [exampleStep ''a'', exampleStep ''b'']"
  using drop_on_self_or_absent_unchanged
    [where st = "(exampleWorkbench [examplePhase ''a'' pending 0 20, examplePhase ''b'' pending 0 20])
                   \<lparr>draggingItem := Some (workflowItem ''a'' (examplePhase ''a'' pending 0 20))\<rparr>"
       and src = "''a''" and d = "examplePhase ''a'' pending 0 20" and tgt = "''a''"
       and bst = "exampleBuilder [exampleStep ''a'', exampleStep ''b'']
                    (Some (wfWorkflowItem ''a'' (exampleStep ''a'')))"
       and src' = "''a''" and d' = "exampleStep ''a''" and tgt' = "''z''"]
  by (simp add: exampleWorkbench_def initialWorkbench_def exampleBuilder_def exampleStep_def
      newStep_def)

section \<open>The overall progress\<close>





section \<open>A drop on the bare canvas\<close>

text \<open>
  Claim C8, as the code has it. A drop on the canvas appends exactly one phase when a
  palette block is being dragged, and otherwise (a phase of the canvas is dragged, or
  nothing) leaves the list as it is. The new phase is last, pending, with progress 0, no
  log, no actual duration and \<open>canBeRun\<close>; its type, label, icon and colour are the
  block's; its text is the block's default text, or \<open>New <label> Phase\<close> when that is
  empty; its estimated duration is the block's, or 10 when that is 0. The workflow
  builder appends in the same way a step with the block's fields.
\<close>

theorem handleCanvasDrop_appends_iff_palette:
  "(\<forall>block. draggingItem st = Some (paletteItem block) \<longrightarrow>
      (\<exists>p. experimentPhases (handleCanvasDrop uuid st) = experimentPhases st @ [p] \<and>
           phase_id p = uuid \<and> status p = pending \<and> progress p = 0 \<and> logs p = [] \<and>
           canBeRun p \<and> actualDuration p = None \<and>
           phase_type p = block_type block \<and> phase_label p = block_label block \<and>
           phase_icon p = block_icon block \<and> phase_color p = block_color block \<and>
           phase_text p = (if defaultText block = [] then ''New '' @ block_label block @ '' Phase''
                           else defaultText block) \<and>
           estimatedDuration p = (if block_estimatedDuration block = 0 then 10
                                  else block_estimatedDuration block)))
   \<and> (\<forall>i d. draggingItem st = Some (workflowItem i d) \<longrightarrow>
         experimentPhases (handleCanvasDrop uuid st) = experimentPhases st)
   \<and> (draggingItem st = None \<longrightarrow>
         experimentPhases (handleCanvasDrop uuid st) = experimentPhases st)
   \<and> ((length (experimentPhases (handleCanvasDrop uuid st)) = length (experimentPhases st) + 1)
        = (\<exists>block. draggingItem st = Some (paletteItem block)))
   \<and> \<not> dragOverCanvas (handleCanvasDrop uuid st)
   \<and> (\<forall>wb. wf_draggingItem bst = Some (wfPaletteItem wb) \<longrightarrow>
         (\<exists>s. workflowSteps (wf_handleCanvasDrop uuid bst) = workflowSteps bst @ [s] \<and>
              step_id s = uuid \<and> step_type s = wb_type wb \<and> step_label s = wb_label wb \<and>
              step_icon s = wb_icon wb \<and> step_color s = wb_color wb \<and>
              step_text s = (if wb_defaultText wb = [] then ''New '' @ wb_label wb @ '' Step''
                             else wb_defaultText wb)))
   \<and> (\<forall>i d. wf_draggingItem bst = Some (wfWorkflowItem i d) \<longrightarrow>
         workflowSteps (wf_handleCanvasDrop uuid bst) = workflowSteps bst)"
  by (auto simp: handleCanvasDrop_def newPhase_def wf_handleCanvasDrop_def newStep_def
      split: option.splits DraggingItem.splits WorkflowDraggingItem.splits)

theorem handleCanvasDrop_appends_iff_palette_witness:
  "experimentPhases (handleCanvasDrop ''018f-0001''
      (handlePaletteDragStart (exampleBlock ''Prepare and calibrate samples...'' 10)
         initialWorkbench))
    = [\<lparr>phase_id = ''018f-0001'', phase_type = ''SAMPLE_PREP'',
        phase_label = ''Sample Preparation'', phase_icon = ''<svg/>'',
        phase_color = ''bg-sky-500'', phase_text = ''Prepare and calibrate samples...'',
        status = pending, progress = 0, estimatedDuration = 10, actualDuration = None,
        logs = [], canBeRun = True\<rparr>]"
proof -
  let ?b = "exampleBlock ''Prepare and calibrate samples...'' 10"
  let ?st = "handlePaletteDragStart ?b initialWorkbench"
  have d: "draggingItem ?st = Some (paletteItem ?b)"
    by (simp add: handlePaletteDragStart_def)
  from handleCanvasDrop_appends_iff_palette[of ?st "''018f-0001''"] d
  obtain p where p:
    "experimentPhases (handleCanvasDrop ''018f-0001'' ?st) = experimentPhases ?st @ [p]"
    "phase_id p = ''018f-0001''" "status p = pending" "progress p = 0" "logs p = []"
    "canBeRun p" "actualDuration p = None"
    "phase_type p = block_type ?b" "phase_label p = block_label ?b"
    "phase_icon p = block_icon ?b" "phase_color p = block_color ?b"
    "phase_text p = (if defaultText ?b = [] then ''New '' @ block_label ?b @ '' Phase''
                     else defaultText ?b)"
    "estimatedDuration p = (if block_estimatedDuration ?b = 0 then 10
                            else block_estimatedDuration ?b)"
    by blast
  have "p = \<lparr>phase_id = ''018f-0001'', phase_type = ''SAMPLE_PREP'',
        phase_label = ''Sample Preparation'', phase_icon = ''<svg/>'',
        phase_color = ''bg-sky-500'', phase_text = ''Prepare and calibrate samples...'',
        status = pending, progress = 0, estimatedDuration = 10, actualDuration = None,
        logs = [], canBeRun = True\<rparr>"
    using p(2-) by (cases p) (simp add: exampleBlock_def)
  with p(1) show ?thesis
    by (simp add: handlePaletteDragStart_def initialWorkbench_def)
qed

text \<open>
  The claim as stated fails for a block whose default text is empty: the text of the new
  phase is then not the block's.
\<close>

theorem handleCanvasDrop_empty_defaultText_counterexample:
  "draggingItem (handlePaletteDragStart (exampleBlock [] 10) initialWorkbench)
     = Some (paletteItem (exampleBlock [] 10)) \<and>
   phase_text (last (experimentPhases
       (handleCanvasDrop ''018f-0001''
          (handlePaletteDragStart (exampleBlock [] 10) initialWorkbench))))
     \<noteq> defaultText (exampleBlock [] 10)"
  by (simp add: handleCanvasDrop_def handlePaletteDragStart_def initialWorkbench_def
      newPhase_def exampleBlock_def)

section \<open>Mapping over the phases\<close>

lemma mapPhases_length: "length (fst (mapPhases f ps st)) = length ps"
proof (induction ps arbitrary: st)
  case Nil
  then show ?case by simp
next
  case (Cons p ps)
  obtain p' st1 where f: "f p st = (p', st1)" by (cases "f p st")
  obtain ps' st2 where m: "mapPhases f ps st1 = (ps', st2)" by (cases "mapPhases f ps st1")
  from Cons.IH[of st1] f m show ?case by simp
qed

lemma mapPhases_frame:
  assumes "\<And>p st. Q p \<Longrightarrow> fst (f p st) = p"
  shows "k < length ps \<Longrightarrow> Q (ps ! k) \<Longrightarrow> fst (mapPhases f ps st) ! k = ps ! k"
proof (induction ps arbitrary: k st)
  case Nil
  then show ?case by simp
next
  case (Cons p ps)
  obtain p' st1 where f: "f p st = (p', st1)" by (cases "f p st")
  obtain ps' st2 where m: "mapPhases f ps st1 = (ps', st2)" by (cases "mapPhases f ps st1")
  show ?case
  proof (cases k)
    case 0
    with Cons.prems assms[of p st] f m show ?thesis by simp
  next
    case (Suc j)
    with Cons.prems Cons.IH[of j st1] f m show ?thesis by simp
  qed
qed

lemma mapPhases_filter:
  assumes "\<And>p st. Q p \<Longrightarrow> fst (f p st) = p"
    and "\<And>p st. \<not> Q p \<Longrightarrow> \<not> Q (fst (f p st))"
  shows "filter Q (fst (mapPhases f ps st)) = filter Q ps"
proof (induction ps arbitrary: st)
  case Nil
  then show ?case by simp
next
  case (Cons p ps)
  obtain p' st1 where f: "f p st = (p', st1)" by (cases "f p st")
  obtain ps' st2 where m: "mapPhases f ps st1 = (ps', st2)" by (cases "mapPhases f ps st1")
  from Cons.IH[of st1] m have ih: "filter Q ps' = filter Q ps" by simp
  show ?case using assms(1)[of p st] assms(2)[of p st] f m ih by (cases "Q p") auto
qed

lemma mapPhases_absent:
  "(\<And>p st. p \<in> set ps \<Longrightarrow> f p st = (p, st)) \<Longrightarrow> mapPhases f ps st = (ps, st)"
  by (induction ps arbitrary: st) auto

lemma toggleOne_other: "phase_id p \<noteq> i \<Longrightarrow> toggleOne i e p st = (p, st)"
  by (simp add: toggleOne_def)

lemma toggleOne_id: "phase_id (fst (toggleOne i e p st)) = phase_id p"
  by (auto simp: toggleOne_def setInterval_def Let_def split: prod.splits)

lemma toggle_phases:
  "experimentPhases (togglePhaseExecution i e st) =
   fst (mapPhases (toggleOne i e) (experimentPhases st) st)"
  by (simp add: togglePhaseExecution_def split: prod.splits)

lemma filter_updateText:
  "filter (\<lambda>p. phase_id p \<noteq> i)
     (map (\<lambda>p. if phase_id p = i then p\<lparr>phase_text := txt\<rparr> else p) xs) =
   filter (\<lambda>p. phase_id p \<noteq> i) xs"
  by (induction xs) auto

lemma removePhase_phases:
  "experimentPhases (removePhase i st) = filter (\<lambda>p. phase_id p \<noteq> i) (experimentPhases st)"
  by (simp add: removePhase_def Let_def deleteRegistered_def clearInterval_def
      split: option.splits)

section \<open>What an operation on one phase leaves alone\<close>

text \<open>
  Claim C10. Toggling the execution of the phase \<open>i\<close> and updating its text keep the
  length of the list and every phase with another id, at its place; removing the phase
  \<open>i\<close> keeps exactly the phases with another id, in their order; and when no phase has
  the id \<open>i\<close>, each of the three leaves the list as it was.
\<close>

theorem addressed_operations_frame:
  "length (experimentPhases (togglePhaseExecution i e st)) = length (experimentPhases st)
   \<and> (\<forall>k<length (experimentPhases st). phase_id (experimentPhases st ! k) \<noteq> i \<longrightarrow>
         experimentPhases (togglePhaseExecution i e st) ! k = experimentPhases st ! k)
   \<and> length (experimentPhases (updatePhaseText i txt st)) = length (experimentPhases st)
   \<and> (\<forall>k<length (experimentPhases st). phase_id (experimentPhases st ! k) \<noteq> i \<longrightarrow>
         experimentPhases (updatePhaseText i txt st) ! k = experimentPhases st ! k)
   \<and> filter (\<lambda>p. phase_id p \<noteq> i) (experimentPhases (togglePhaseExecution i e st))
       = filter (\<lambda>p. phase_id p \<noteq> i) (experimentPhases st)
   \<and> filter (\<lambda>p. phase_id p \<noteq> i) (experimentPhases (updatePhaseText i txt st))
       = filter (\<lambda>p. phase_id p \<noteq> i) (experimentPhases st)
   \<and> experimentPhases (removePhase i st) = filter (\<lambda>p. phase_id p \<noteq> i) (experimentPhases st)
   \<and> (i \<notin> phase_id ` set (experimentPhases st) \<longrightarrow>
        experimentPhases (togglePhaseExecution i e st) = experimentPhases st \<and>
        experimentPhases (updatePhaseText i txt st) = experimentPhases st \<and>
        experimentPhases (removePhase i st) = experimentPhases st)"
proof -
  let ?xs = "experimentPhases st"
  have a: "length (experimentPhases (togglePhaseExecution i e st)) = length ?xs"
    by (simp add: toggle_phases mapPhases_length)
  have b: "\<forall>k<length ?xs. phase_id (?xs ! k) \<noteq> i \<longrightarrow>
         experimentPhases (togglePhaseExecution i e st) ! k = ?xs ! k"
    using mapPhases_frame[of "\<lambda>p. phase_id p \<noteq> i" "toggleOne i e" _ ?xs st]
    by (simp add: toggle_phases toggleOne_other)
  have c: "length (experimentPhases (updatePhaseText i txt st)) = length ?xs"
    by (simp add: updatePhaseText_def)
  have d: "\<forall>k<length ?xs. phase_id (?xs ! k) \<noteq> i \<longrightarrow>
         experimentPhases (updatePhaseText i txt st) ! k = ?xs ! k"
    by (simp add: updatePhaseText_def)
  have f1: "filter (\<lambda>p. phase_id p \<noteq> i) (experimentPhases (togglePhaseExecution i e st))
       = filter (\<lambda>p. phase_id p \<noteq> i) ?xs"
    unfolding toggle_phases
  proof (rule mapPhases_filter)
    fix p st show "phase_id p \<noteq> i \<Longrightarrow> fst (toggleOne i e p st) = p"
      by (simp add: toggleOne_other)
    show "\<not> phase_id p \<noteq> i \<Longrightarrow> \<not> phase_id (fst (toggleOne i e p st)) \<noteq> i"
      by (simp add: toggleOne_id)
  qed
  have f2: "filter (\<lambda>p. phase_id p \<noteq> i) (experimentPhases (updatePhaseText i txt st))
       = filter (\<lambda>p. phase_id p \<noteq> i) ?xs"
    by (simp add: updatePhaseText_def filter_updateText)
  have g: "experimentPhases (removePhase i st) = filter (\<lambda>p. phase_id p \<noteq> i) ?xs"
    by (rule removePhase_phases)
  have h: "experimentPhases (togglePhaseExecution i e st) = ?xs \<and>
        experimentPhases (updatePhaseText i txt st) = ?xs \<and>
        experimentPhases (removePhase i st) = ?xs" if "i \<notin> phase_id ` set ?xs"
  proof -
    have "filter (\<lambda>p. phase_id p \<noteq> i) ?xs = ?xs"
      using that by (auto simp: filter_id_conv)
    moreover have "mapPhases (toggleOne i e) ?xs st = (?xs, st)"
      using that by (intro mapPhases_absent toggleOne_other) auto
    moreover have "map (\<lambda>p. if phase_id p = i then p\<lparr>phase_text := txt\<rparr> else p) ?xs = ?xs"
      using that by (intro map_idI) auto
    ultimately show ?thesis using g
      by (simp add: toggle_phases updatePhaseText_def)
  qed
  show ?thesis using a b c d f1 f2 g h by blast
qed

theorem addressed_operations_frame_witness:
  "experimentPhases (togglePhaseExecution ''a'' (exampleEnv 0)
      (exampleWorkbench [examplePhase ''a'' pending 0 10, examplePhase ''b'' pending 0 20])) ! 1
     = examplePhase ''b'' pending 0 20
   \<and> experimentPhases (removePhase ''z''
      (exampleWorkbench [examplePhase ''a'' pending 0 10, examplePhase ''b'' pending 0 20]))
     = [examplePhase ''a'' pending 0 10, examplePhase ''b'' pending 0 20]"
  using addressed_operations_frame
    [of "''a''" "exampleEnv 0"
        "exampleWorkbench [examplePhase ''a'' pending 0 10, examplePhase ''b'' pending 0 20]"]
    addressed_operations_frame
    [of "''z''" "exampleEnv 0"
        "exampleWorkbench [examplePhase ''a'' pending 0 10, examplePhase ''b'' pending 0 20]"]
  by (simp add: exampleWorkbench_def initialWorkbench_def examplePhase_def)

section \<open>The progress of a completed phase\<close>

lemma mapPhases_pred:
  assumes "\<And>p st. R p \<Longrightarrow> R (fst (f p st))"
  shows "\<forall>p\<in>set ps. R p \<Longrightarrow> \<forall>p\<in>set (fst (mapPhases f ps st)). R p"
proof (induction ps arbitrary: st)
  case Nil
  then show ?case by simp
next
  case (Cons p ps)
  obtain p' st1 where f: "f p st = (p', st1)" by (cases "f p st")
  obtain ps' st2 where m: "mapPhases f ps st1 = (ps', st2)" by (cases "mapPhases f ps st1")
  from Cons.prems have "R p" and rest: "\<forall>p\<in>set ps. R p" by simp_all
  from assms[OF \<open>R p\<close>, of st] f have "R p'" by simp
  moreover from Cons.IH[OF rest, of st1] m have "\<forall>p\<in>set ps'. R p" by simp
  ultimately show ?case using f m by simp
qed


lemma toggleOne_settled: "settled p \<Longrightarrow> settled (fst (toggleOne i e p st))"
  by (auto simp: settled_def toggleOne_def setInterval_def Let_def split: prod.splits)

lemma tickOne_settled: "settled p \<Longrightarrow> settled (fst (tickOne cb e p st))"
  by (auto simp: settled_def tickOne_def Let_def min_def)

lemma fire_phases:
  "intervals st h = Some cb \<Longrightarrow>
   experimentPhases (fireInterval h e st) = fst (mapPhases (tickOne cb e) (experimentPhases st) st)"
  by (simp add: fireInterval_def split: prod.splits)

lemma fire_inactive: "intervals st h = None \<Longrightarrow> fireInterval h e st = st"
  by (simp add: fireInterval_def)

lemma handle_settled:
  assumes "\<forall>p\<in>set (experimentPhases st). settled p"
  shows "\<forall>p\<in>set (experimentPhases (handle ev st)). settled p"
proof (cases ev)
  case (CanvasDrop uuid)
  then show ?thesis using assms
    by (auto simp: handleCanvasDrop_def newPhase_def settled_def
        split: option.splits DraggingItem.splits)
next
  case (PhaseDrop tgt)
  then show ?thesis using assms set_reorderPhases
    by (auto simp: handlePhaseDrop_def split: option.splits DraggingItem.splits)
next
  case (RemovePhase i)
  then show ?thesis using assms by (simp add: removePhase_phases)
next
  case (UpdatePhaseText i t)
  then show ?thesis using assms by (auto simp: updatePhaseText_def settled_def)
next
  case (TogglePhaseExecution i e)
  then show ?thesis using assms mapPhases_pred[of settled "toggleOne i e", OF toggleOne_settled]
    by (simp add: toggle_phases)
next
  case (IntervalFires h e)
  show ?thesis
  proof (cases "intervals st h")
    case None
    with IntervalFires assms show ?thesis by (simp add: fire_inactive)
  next
    case (Some cb)
    with IntervalFires assms mapPhases_pred[of settled "tickOne cb e", OF tickOne_settled]
    show ?thesis by (simp add: fire_phases)
  qed
qed (use assms in \<open>auto simp: handlePaletteDragStart_def handleCanvasDragEnter_def
      handleCanvasDragOver_def handleCanvasDragLeave_def handlePhaseDragStart_def
      handlePhaseDragEnter_def handlePhaseDragLeave_def handleDragEnd_def
      split: option.splits DraggingItem.splits\<close>)

text \<open>
  Claim C5. In every state the component reaches from its initial state by the handlers
  of the gestures (dragging, dropping on the canvas and on a phase, removing a phase,
  editing its text, toggling its execution, which also resets a completed phase) and by
  intervals that fire, the progress of a phase is 100 exactly if its status is completed.
\<close>

theorem progress_100_iff_completed_reachable:
  "reachable st \<Longrightarrow> \<forall>p\<in>set (experimentPhases st). (progress p = 100) = (status p = completed)"
proof (induction rule: reachable.induct)
  case reachable_init
  then show ?case by (simp add: initialWorkbench_def)
next
  case (reachable_step st ev)
  then have "\<forall>p\<in>set (experimentPhases st). settled p" by (simp add: settled_def)
  from handle_settled[OF this, of ev] show ?case by (simp add: settled_def)
qed

theorem progress_100_iff_completed_reachable_witness:
  "status (hd (experimentPhases (handle (IntervalFires 1 (exampleEnv 200))
     (handle (TogglePhaseExecution ''018f-0001'' (exampleEnv 0))
       (handle (CanvasDrop ''018f-0001'')
          (handle (PaletteDragStart (exampleBlock ''One tick'' (1/5))) initialWorkbench))))))
     = completed
   \<and> progress (hd (experimentPhases (handle (IntervalFires 1 (exampleEnv 200))
     (handle (TogglePhaseExecution ''018f-0001'' (exampleEnv 0))
       (handle (CanvasDrop ''018f-0001'')
          (handle (PaletteDragStart (exampleBlock ''One tick'' (1/5))) initialWorkbench))))))
     = 100"
proof -
  let ?S = "handle (IntervalFires 1 (exampleEnv 200))
     (handle (TogglePhaseExecution ''018f-0001'' (exampleEnv 0))
       (handle (CanvasDrop ''018f-0001'')
          (handle (PaletteDragStart (exampleBlock ''One tick'' (1/5))) initialWorkbench)))"
  have r: "reachable ?S" by (intro reachable.intros)
  have s: "map status (experimentPhases ?S) = [completed]" by code_simp
  then obtain q where q: "experimentPhases ?S = [q]" "status q = completed"
    by (auto simp: map_eq_Cons_conv)
  from progress_100_iff_completed_reachable[OF r] q have "progress q = 100" by simp
  with q show ?thesis by simp
qed

section \<open>The bookkeeping of the intervals\<close>

lemma timers_inv_phases [simp]: "timers_inv (st\<lparr>experimentPhases := ps\<rparr>) = timers_inv st"
  by (simp add: timers_inv_def)

lemma timers_inv_drag [simp]:
  "timers_inv (st\<lparr>draggingItem := d\<rparr>) = timers_inv st"
  "timers_inv (st\<lparr>dragOverCanvas := c\<rparr>) = timers_inv st"
  "timers_inv (st\<lparr>dragOverPhaseId := o'\<rparr>) = timers_inv st"
  by (simp_all add: timers_inv_def)

lemma timers_inv_unregister:
  assumes "timers_inv st"
  shows "timers_inv (st\<lparr>intervals := (case phaseIntervals st i of
                                            Some h \<Rightarrow> (intervals st)(h := None)
                                          | None \<Rightarrow> intervals st),
                           phaseIntervals := (phaseIntervals st)(i := None)\<rparr>)"
  using assms unfolding timers_inv_def
  by (auto split: option.splits)

lemma unregister_eq:
  assumes "timers_inv st"
  shows "deleteRegistered i (clearRegistered i st) =
         st\<lparr>intervals := (case phaseIntervals st i of
                             Some h \<Rightarrow> (intervals st)(h := None)
                           | None \<Rightarrow> intervals st),
            phaseIntervals := (phaseIntervals st)(i := None)\<rparr>"
proof (cases "phaseIntervals st i")
  case None
  then show ?thesis by (simp add: deleteRegistered_def clearRegistered_def)
next
  case (Some h)
  show ?thesis
  proof (cases "h = 0")
    case True
    from assms have "intervals st 0 = None" by (simp add: timers_inv_def)
    then have "(intervals st)(0 := None) = intervals st" by auto
    with Some True show ?thesis
      by (simp add: deleteRegistered_def clearRegistered_def)
  next
    case False
    with Some show ?thesis
      by (simp add: deleteRegistered_def clearRegistered_def clearInterval_def)
  qed
qed

lemma timers_inv_clearRegistered_register:
  assumes "timers_inv st" "cb_phase_id cb = i"
  shows "timers_inv
     ((snd (setInterval cb (clearRegistered i st)))
       \<lparr>phaseIntervals := (phaseIntervals st)(i \<mapsto> nextHandle st)\<rparr>)"
  using assms unfolding timers_inv_def setInterval_def clearRegistered_def clearInterval_def
  by (auto split: option.splits) (metis option.distinct(1), metis option.inject)

lemma toggleOne_timers_inv:
  assumes "timers_inv st"
  shows "timers_inv (snd (toggleOne i e p st))"
proof -
  have r: "timers_inv (deleteRegistered (phase_id p) (clearRegistered (phase_id p) st))"
    using timers_inv_unregister[OF assms, of "phase_id p"] unregister_eq[OF assms, of "phase_id p"]
    by simp
  have pi: "phaseIntervals (clearRegistered j st) = phaseIntervals st" for j
    by (simp add: clearRegistered_def clearInterval_def split: option.splits)
  have nh: "nextHandle (clearRegistered j st) = nextHandle st" for j
    by (simp add: clearRegistered_def clearInterval_def split: option.splits)
  show ?thesis
    using r timers_inv_clearRegistered_register[OF assms, of _ "phase_id p"] assms
    by (auto simp: toggleOne_def Let_def setInterval_def pi nh split: prod.splits)
qed

lemma tickOne_timers_inv:
  assumes "timers_inv st"
  shows "timers_inv (snd (tickOne cb e p st))"
proof -
  have "deleteRegistered (cb_phase_id cb)
          (case phaseIntervals st (cb_phase_id cb) of Some h \<Rightarrow> clearInterval h st | None \<Rightarrow> st)
        = st\<lparr>intervals := (case phaseIntervals st (cb_phase_id cb) of
                             Some h \<Rightarrow> (intervals st)(h := None)
                           | None \<Rightarrow> intervals st),
            phaseIntervals := (phaseIntervals st)(cb_phase_id cb := None)\<rparr>"
    by (simp add: deleteRegistered_def clearInterval_def split: option.splits)
  with timers_inv_unregister[OF assms, of "cb_phase_id cb"] assms
  show ?thesis by (simp add: tickOne_def Let_def)
qed

lemma mapPhases_state:
  assumes "\<And>p st. I st \<Longrightarrow> I (snd (f p st))"
  shows "I st \<Longrightarrow> I (snd (mapPhases f ps st))"
proof (induction ps arbitrary: st)
  case Nil
  then show ?case by simp
next
  case (Cons p ps)
  obtain p' st1 where f: "f p st = (p', st1)" by (cases "f p st")
  obtain ps' st2 where m: "mapPhases f ps st1 = (ps', st2)" by (cases "mapPhases f ps st1")
  from assms[OF Cons.prems, of p] f have "I st1" by simp
  from Cons.IH[OF this] m f show ?case by simp
qed

lemma toggle_timers_inv: "timers_inv st \<Longrightarrow> timers_inv (togglePhaseExecution i e st)"
  using mapPhases_state[of timers_inv "toggleOne i e" st "experimentPhases st",
      OF toggleOne_timers_inv]
  by (auto simp: togglePhaseExecution_def split: prod.splits)

lemma fire_timers_inv: "timers_inv st \<Longrightarrow> timers_inv (fireInterval h e st)"
proof (cases "intervals st h")
  case None
  then show "timers_inv st \<Longrightarrow> timers_inv (fireInterval h e st)" by (simp add: fireInterval_def)
next
  case (Some cb)
  assume "timers_inv st"
  with Some mapPhases_state[of timers_inv "tickOne cb e" st "experimentPhases st",
      OF tickOne_timers_inv]
  show "timers_inv (fireInterval h e st)"
    by (auto simp: fireInterval_def split: prod.splits)
qed

lemma removePhase_eq:
  assumes "timers_inv st"
  shows "removePhase i st =
         st\<lparr>experimentPhases := filter (\<lambda>p. phase_id p \<noteq> i) (experimentPhases st),
            intervals := (case phaseIntervals st i of
                             Some h \<Rightarrow> (intervals st)(h := None)
                           | None \<Rightarrow> intervals st),
            phaseIntervals := (phaseIntervals st)(i := None)\<rparr>"
proof (cases "phaseIntervals st i")
  case None
  then have "(phaseIntervals st)(i := None) = phaseIntervals st" by auto
  with None show ?thesis by (simp add: removePhase_def)
next
  case (Some h)
  from assms Some have "h \<noteq> 0"
    unfolding timers_inv_def by metis
  with Some show ?thesis
    by (simp add: removePhase_def deleteRegistered_def clearInterval_def)
qed


lemma removePhase_timers_inv: "timers_inv st \<Longrightarrow> timers_inv (removePhase i st)"
  using timers_inv_unregister[of st i] by (simp add: removePhase_eq timers_inv_def)

lemma handle_timers_inv:
  assumes "timers_inv st"
  shows "timers_inv (handle ev st)"
proof (cases ev)
  case (RemovePhase i)
  then show ?thesis using assms by (simp add: removePhase_timers_inv)
next
  case (TogglePhaseExecution i e)
  then show ?thesis using assms by (simp add: toggle_timers_inv)
next
  case (IntervalFires h e)
  then show ?thesis using assms by (simp add: fire_timers_inv)
qed (use assms in \<open>auto simp: handlePaletteDragStart_def handleCanvasDragEnter_def
      handleCanvasDragOver_def handleCanvasDragLeave_def handlePhaseDragStart_def
      handlePhaseDragEnter_def handlePhaseDragLeave_def handleDragEnd_def
      handleCanvasDrop_def handlePhaseDrop_def updatePhaseText_def Let_def
      split: option.splits DraggingItem.splits\<close>)

lemma reachable_timers_inv: "reachable st \<Longrightarrow> timers_inv st"
proof (induction rule: reachable.induct)
  case reachable_init
  then show ?case by (simp add: timers_inv_def initialWorkbench_def)
next
  case (reachable_step st ev)
  then show ?case by (simp add: handle_timers_inv)
qed

lemma removePhase_no_timer:
  assumes "timers_inv st"
  shows "no_timer_for i (removePhase i st)"
  using assms unfolding no_timer_for_def removePhase_eq[OF assms] timers_inv_def
  by (auto split: option.splits)

lemma tickOne_no_timer: "no_timer_for i st \<Longrightarrow> no_timer_for i (snd (tickOne cb e p st))"
  by (auto simp: no_timer_for_def tickOne_def Let_def deleteRegistered_def clearInterval_def
      split: option.splits if_splits)

lemma tickOne_id: "phase_id (fst (tickOne cb e p st)) = phase_id p"
  by (simp add: tickOne_def Let_def)

lemma mapPhases_ids:
  assumes "\<And>p st. phase_id (fst (f p st)) = phase_id p"
  shows "map phase_id (fst (mapPhases f ps st)) = map phase_id ps"
proof (induction ps arbitrary: st)
  case Nil
  then show ?case by simp
next
  case (Cons p ps)
  obtain p' st1 where f: "f p st = (p', st1)" by (cases "f p st")
  obtain ps' st2 where m: "mapPhases f ps st1 = (ps', st2)" by (cases "mapPhases f ps st1")
  from assms[of p st] f have "phase_id p' = phase_id p" by simp
  with Cons.IH[of st1] f m show ?case by simp
qed

lemma fire_ids: "map phase_id (experimentPhases (fireInterval h e st)) = map phase_id (experimentPhases st)"
proof (cases "intervals st h")
  case None
  then show ?thesis by (simp add: fireInterval_def)
next
  case (Some cb)
  with mapPhases_ids[of "tickOne cb e" "experimentPhases st" st, OF tickOne_id]
  show ?thesis by (auto simp: fireInterval_def split: prod.splits)
qed

lemma fire_no_timer: "no_timer_for i st \<Longrightarrow> no_timer_for i (fireInterval h e st)"
proof (cases "intervals st h")
  case None
  then show "no_timer_for i st \<Longrightarrow> no_timer_for i (fireInterval h e st)"
    by (simp add: fireInterval_def)
next
  case (Some cb)
  have ph: "no_timer_for i (s\<lparr>experimentPhases := ps\<rparr>) = no_timer_for i s" for s ps
    by (simp add: no_timer_for_def)
  assume "no_timer_for i st"
  with Some mapPhases_state[of "no_timer_for i" "tickOne cb e" st "experimentPhases st",
      OF tickOne_no_timer]
  show "no_timer_for i (fireInterval h e st)"
    by (auto simp: fireInterval_def ph split: prod.splits)
qed

lemma fires_removed:
  "no_timer_for i st \<Longrightarrow> i \<notin> phase_id ` set (experimentPhases st) \<Longrightarrow>
   no_timer_for i (fireIntervals hes st) \<and> i \<notin> phase_id ` set (experimentPhases (fireIntervals hes st))"
proof (induction hes arbitrary: st)
  case Nil
  then show ?case by (simp add: fireIntervals_def)
next
  case (Cons he hes)
  let ?st1 = "fireInterval (fst he) (snd he) st"
  have a: "no_timer_for i ?st1" using Cons.prems(1) by (rule fire_no_timer)
  have "set (map phase_id (experimentPhases ?st1)) = set (map phase_id (experimentPhases st))"
    by (simp only: fire_ids)
  with Cons.prems(2) have b: "i \<notin> phase_id ` set (experimentPhases ?st1)" by simp
  from Cons.IH[OF a b] show ?case by (simp add: fireIntervals_def)
qed

text \<open>
  Claim C7. In every reachable state, removing the phase \<open>i\<close> cancels at once the interval
  registered for it and deletes the registration; no active interval names \<open>i\<close> any
  more; and whatever intervals fire afterwards, no phase with the id \<open>i\<close> is in the list
  and no interval for \<open>i\<close> comes back.
\<close>

theorem removePhase_cancels_timer:
  assumes "reachable st"
  shows "(\<forall>h. phaseIntervals st i = Some h \<longrightarrow> intervals (removePhase i st) h = None)
    \<and> phaseIntervals (removePhase i st) i = None
    \<and> (\<forall>h cb. intervals (removePhase i st) h = Some cb \<longrightarrow> cb_phase_id cb \<noteq> i)
    \<and> (\<forall>hes. i \<notin> phase_id ` set (experimentPhases (fireIntervals hes (removePhase i st)))
            \<and> phaseIntervals (fireIntervals hes (removePhase i st)) i = None
            \<and> (\<forall>h cb. intervals (fireIntervals hes (removePhase i st)) h = Some cb
                   \<longrightarrow> cb_phase_id cb \<noteq> i))"
proof -
  have inv: "timers_inv st" using assms by (rule reachable_timers_inv)
  have a: "\<forall>h. phaseIntervals st i = Some h \<longrightarrow> intervals (removePhase i st) h = None"
    unfolding removePhase_eq[OF inv] by simp
  have n: "no_timer_for i (removePhase i st)" using inv by (rule removePhase_no_timer)
  have g: "i \<notin> phase_id ` set (experimentPhases (removePhase i st))"
    by (auto simp: removePhase_phases)
  have "no_timer_for i (fireIntervals hes (removePhase i st)) \<and>
        i \<notin> phase_id ` set (experimentPhases (fireIntervals hes (removePhase i st)))" for hes
    using fires_removed[OF n g] .
  then show ?thesis using a n unfolding no_timer_for_def by blast
qed

theorem removePhase_cancels_timer_witness:
  "phaseIntervals (handle (TogglePhaseExecution ''018f-0001'' (exampleEnv 0))
       (handle (CanvasDrop ''018f-0001'')
          (handle (PaletteDragStart (exampleBlock ''Prepare'' 10)) initialWorkbench)))
     ''018f-0001'' = Some 1
   \<and> intervals (removePhase ''018f-0001''
       (handle (TogglePhaseExecution ''018f-0001'' (exampleEnv 0))
         (handle (CanvasDrop ''018f-0001'')
            (handle (PaletteDragStart (exampleBlock ''Prepare'' 10)) initialWorkbench)))) 1
     = None
   \<and> ''018f-0001'' \<notin> phase_id ` set (experimentPhases
       (fireIntervals [(1, exampleEnv 200)]
         (removePhase ''018f-0001''
           (handle (TogglePhaseExecution ''018f-0001'' (exampleEnv 0))
             (handle (CanvasDrop ''018f-0001'')
                (handle (PaletteDragStart (exampleBlock ''Prepare'' 10)) initialWorkbench))))))"
proof -
  let ?S = "handle (TogglePhaseExecution ''018f-0001'' (exampleEnv 0))
       (handle (CanvasDrop ''018f-0001'')
          (handle (PaletteDragStart (exampleBlock ''Prepare'' 10)) initialWorkbench))"
  have r: "reachable ?S" by (intro reachable.intros)
  have s: "phaseIntervals ?S ''018f-0001'' = Some 1" by code_simp
  from removePhase_cancels_timer[OF r, of "''018f-0001''"] s show ?thesis by blast
qed

section \<open>Ticks of a running phase\<close>


















section \<open>One call of runAllPhases\<close>

lemma runAllLoop_Awaiting:
  "runAllLoop ids e st = (st', Awaiting i rest) \<Longrightarrow>
   \<exists>skipped. ids = skipped @ i # rest \<and> (\<forall>j\<in>set skipped. \<not> startable j st) \<and>
             startable i st \<and> st' = togglePhaseExecution i e st"
proof (induction ids)
  case Nil
  then show ?case by simp
next
  case (Cons j ids)
  show ?case
  proof (cases "startable j st")
    case True
    with Cons.prems have "i = j" "rest = ids" "st' = togglePhaseExecution j e st"
      by (auto simp: startable_def split: option.splits)
    with True show ?thesis by (intro exI[of _ "[]"]) simp
  next
    case False
    with Cons.prems have "runAllLoop ids e st = (st', Awaiting i rest)"
      by (auto simp: startable_def split: option.splits)
    from Cons.IH[OF this] obtain skipped where
      "ids = skipped @ i # rest" "\<forall>j\<in>set skipped. \<not> startable j st"
      "startable i st" "st' = togglePhaseExecution i e st"
      by blast
    with False show ?thesis by (intro exI[of _ "j # skipped"]) simp
  qed
qed

lemma runAllLoop_Idle:
  "runAllLoop ids e st = (st', Idle) \<Longrightarrow> st' = st \<and> (\<forall>j\<in>set ids. \<not> startable j st)"
proof (induction ids)
  case Nil
  then show ?case by simp
next
  case (Cons j ids)
  show ?case
  proof (cases "startable j st")
    case True
    with Cons.prems show ?thesis
      by (auto simp: startable_def split: option.splits)
  next
    case False
    with Cons.prems have "runAllLoop ids e st = (st', Idle)"
      by (auto simp: startable_def split: option.splits)
    from Cons.IH[OF this] False show ?thesis by simp
  qed
qed

lemma storeUpdated_waits:
  "\<not> (\<exists>c. find (\<lambda>p. phase_id p = i) (experimentPhases st) = Some c \<and>
          (status c = completed \<or> status c = failed)) \<Longrightarrow>
   storeUpdated e (st, Awaiting i rest) = (st, Awaiting i rest)"
  by (auto split: option.splits)

lemma tickOne_status:
  "status (fst (tickOne cb e p s)) = status p \<or>
   (status p = running \<and> status (fst (tickOne cb e p s)) = completed)"
  by (simp add: tickOne_def Let_def)

lemma tickOne_not_running: "status p \<noteq> running \<Longrightarrow> fst (tickOne cb e p s) = p"
  by (simp add: tickOne_def)

lemma mapPhases_two:
  "fst (mapPhases f [A, B] s) = [fst (f A s), fst (f B (snd (f A s)))]"
  by (simp split: prod.splits)

lemma toggleOne_pending:
  "phase_id p = i \<Longrightarrow> status p = pending \<Longrightarrow> status (fst (toggleOne i e p s)) = running"
  by (simp add: toggleOne_def Let_def setInterval_def split: prod.splits)

lemma twoPhaseRun_start:
  assumes "experimentPhases st = [A, B]" "phase_id A = a" "phase_id B = b" "a \<noteq> b"
    and "status A = pending" "status B = pending"
  shows "twoPhaseRun a b (runAllPhases e st)"
proof -
  have r: "runAllPhases e st = (togglePhaseExecution a e st, Awaiting a [b])"
    using assms by (simp add: runAllPhases_def)
  have "experimentPhases (togglePhaseExecution a e st) =
          [fst (toggleOne a e A st), B]"
    using assms by (simp add: toggle_phases mapPhases_two toggleOne_other del: mapPhases.simps)
  with assms toggleOne_pending[of A a e st] toggleOne_id[of a e A st]
  show ?thesis unfolding r twoPhaseRun_def by simp
qed

lemma twoPhaseRun_tick:
  assumes ne: "a \<noteq> b" and inv: "twoPhaseRun a b so"
  shows "twoPhaseRun a b (fireIntervalDuringRunAll he so)"
proof -
  obtain h e where he: "he = (h, e)" by (cases he)
  obtain s orch where so: "so = (s, orch)" by (cases so)
  from inv so obtain A B where ph: "experimentPhases s = [A, B]"
    and ids: "phase_id A = a" "phase_id B = b"
    and c: "(status A = running \<and> status B = pending \<and> orch = Awaiting a [b]) \<or>
         (status A = completed \<and> status B = running \<and> orch = Awaiting b []) \<or>
         (status A = completed \<and> status B = completed \<and> orch = Idle)"
    unfolding twoPhaseRun_def by auto
  show ?thesis
  proof (cases "intervals s h")
    case None
    then show ?thesis using inv by (simp add: fireIntervalDuringRunAll_def he so)
  next
    case (Some cb)
    let ?s1 = "fireInterval h e s"
    let ?A1 = "fst (tickOne cb e A s)"
    let ?B1 = "fst (tickOne cb e B (snd (tickOne cb e A s)))"
    have ph1: "experimentPhases ?s1 = [?A1, ?B1]"
      using Some ph by (simp add: fire_phases mapPhases_two del: mapPhases.simps)
    have id1: "phase_id ?A1 = a" "phase_id ?B1 = b"
      using ids by (simp_all add: tickOne_id)
    have f: "fireIntervalDuringRunAll he so = storeUpdated e (?s1, orch)"
      using Some by (simp add: fireIntervalDuringRunAll_def he so)
    from c consider
        (first) "status A = running" "status B = pending" "orch = Awaiting a [b]"
      | (second) "status A = completed" "status B = running" "orch = Awaiting b []"
      | (finished) "status A = completed" "status B = completed" "orch = Idle"
      by blast
    then show ?thesis
    proof cases
      case first
      have B1: "?B1 = B" using first(2) by (simp add: tickOne_not_running)
      from tickOne_status[of cb e A s] first(1)
      consider "status ?A1 = running" | "status ?A1 = completed" by auto
      then show ?thesis
      proof cases
        case 1
        then show ?thesis unfolding f twoPhaseRun_def
          using ph1 id1 ids B1 first by simp
      next
        case 2
        have t: "experimentPhases (togglePhaseExecution b e ?s1) =
                   [?A1, fst (toggleOne b e B ?s1)]"
          using ph1 B1 id1 ne by (simp add: toggle_phases mapPhases_two toggleOne_other del: mapPhases.simps)
        have "storeUpdated e (?s1, orch) = (togglePhaseExecution b e ?s1, Awaiting b [])"
          using 2 ph1 id1 ids B1 first ne by simp
        then show ?thesis unfolding f twoPhaseRun_def
          using t id1 2 toggleOne_pending[OF ids(2) first(2), of e ?s1] toggleOne_id[of b e B ?s1] ids
          by simp
      qed
    next
      case second
      have A1: "?A1 = A" using second(1) by (simp add: tickOne_not_running)
      from tickOne_status[of cb e B "snd (tickOne cb e A s)"] second(2)
      consider "status ?B1 = running" | "status ?B1 = completed" by auto
      then show ?thesis
      proof cases
        case 1
        then show ?thesis unfolding f twoPhaseRun_def
          using ph1 id1 ids A1 second ne by simp
      next
        case 2
        then show ?thesis unfolding f twoPhaseRun_def
          using ph1 id1 ids A1 second ne by simp
      qed
    next
      case finished
      have "?A1 = A" "?B1 = B" using finished by (simp_all add: tickOne_not_running)
      then show ?thesis unfolding f twoPhaseRun_def
        using ph1 ids finished by simp
    qed
  qed
qed

lemma twoPhaseRun_ticks:
  "a \<noteq> b \<Longrightarrow> twoPhaseRun a b so \<Longrightarrow> twoPhaseRun a b (fold fireIntervalDuringRunAll hes so)"
  by (induction hes arbitrary: so) (simp_all add: twoPhaseRun_tick)

text \<open>
  A call of \<^verbatim>\<open>runAllPhases\<close> changes the state only by toggling phases, so it does not leave
  the reachable states, neither when it is called nor when it is resumed.
\<close>

lemma reachable_toggle: "reachable st \<Longrightarrow> reachable (togglePhaseExecution i e st)"
  using reachable_step[of st "TogglePhaseExecution i e"] by simp

lemma reachable_fire: "reachable st \<Longrightarrow> reachable (fireInterval h e st)"
  using reachable_step[of st "IntervalFires h e"] by simp

lemma reachable_runAllLoop: "reachable st \<Longrightarrow> reachable (fst (runAllLoop ids e st))"
  by (induction ids) (auto simp: reachable_toggle split: option.splits)

lemma reachable_runAllPhases: "reachable st \<Longrightarrow> reachable (fst (runAllPhases e st))"
  by (simp add: runAllPhases_def reachable_runAllLoop)

lemma reachable_storeUpdated:
  "reachable (fst so) \<Longrightarrow> reachable (fst (storeUpdated e so))"
  by (cases "(e, so)" rule: storeUpdated.cases)
     (auto simp: reachable_runAllLoop split: option.splits)

lemma reachable_fireIntervalDuringRunAll:
  "reachable (fst so) \<Longrightarrow> reachable (fst (fireIntervalDuringRunAll he so))"
  using reachable_storeUpdated[of "(fireInterval (fst he) (snd he) (fst so), snd so)" "snd he"]
  by (cases he; cases so)
     (auto simp: fireIntervalDuringRunAll_def reachable_fire split: option.splits)

text \<open>
  Claim C6. \<^verbatim>\<open>runAllPhases\<close> runs its loop over the ids of the phases that are pending or
  failed when it is called, in the order of the list. Where the loop suspends, it has
  skipped the ids that were not startable at that time, has found the next id startable
  and has toggled exactly that phase; where it returns, nothing was startable and the
  state is as before. A suspended call does not move while the awaited phase is neither
  completed nor failed, and goes on with the rest of its snapshot once it is. For two
  pending phases A and B with different ids, started by one call and driven by any
  sequence of intervals that fire, B has left the pending status only in states where A
  is completed (and has left it in all of them), so A and B are never running together.
\<close>

theorem runAllPhases_one_at_a_time:
  "runAllPhases e st =
     runAllLoop (map phase_id (filter (\<lambda>p. status p = pending \<or> status p = failed)
                                 (experimentPhases st))) e st
   \<and> (\<forall>st' i rest. runAllLoop ids e st = (st', Awaiting i rest) \<longrightarrow>
         (\<exists>skipped. ids = skipped @ i # rest \<and> (\<forall>j\<in>set skipped. \<not> startable j st) \<and>
                    startable i st \<and> st' = togglePhaseExecution i e st))
   \<and> (\<forall>st'. runAllLoop ids e st = (st', Idle) \<longrightarrow>
         st' = st \<and> (\<forall>j\<in>set ids. \<not> startable j st))
   \<and> (\<forall>c. find (\<lambda>p. phase_id p = i) (experimentPhases st) = Some c \<and>
           (status c = completed \<or> status c = failed) \<longrightarrow>
           storeUpdated e (st, Awaiting i rest) = runAllLoop rest e st)
   \<and> (\<not> (\<exists>c. find (\<lambda>p. phase_id p = i) (experimentPhases st) = Some c \<and>
               (status c = completed \<or> status c = failed)) \<longrightarrow>
         storeUpdated e (st, Awaiting i rest) = (st, Awaiting i rest))
   \<and> (experimentPhases st = [A, B] \<and> phase_id A \<noteq> phase_id B \<and>
       status A = pending \<and> status B = pending \<longrightarrow>
         (\<forall>hes. \<exists>A' B'.
            experimentPhases (fst (fold fireIntervalDuringRunAll hes (runAllPhases e st)))
              = [A', B'] \<and>
            phase_id A' = phase_id A \<and> phase_id B' = phase_id B \<and>
            (status B' \<noteq> pending \<longrightarrow> status A' = completed) \<and>
            (status A' = completed \<longrightarrow> status B' \<noteq> pending) \<and>
            \<not> (status A' = running \<and> status B' = running)))"
proof -
  have snap: "runAllPhases e st =
     runAllLoop (map phase_id (filter (\<lambda>p. status p = pending \<or> status p = failed)
                                 (experimentPhases st))) e st"
    by (simp add: runAllPhases_def)
  have aw: "\<forall>st' i rest. runAllLoop ids e st = (st', Awaiting i rest) \<longrightarrow>
         (\<exists>skipped. ids = skipped @ i # rest \<and> (\<forall>j\<in>set skipped. \<not> startable j st) \<and>
                    startable i st \<and> st' = togglePhaseExecution i e st)"
    using runAllLoop_Awaiting by blast
  have idle: "\<forall>st'. runAllLoop ids e st = (st', Idle) \<longrightarrow>
         st' = st \<and> (\<forall>j\<in>set ids. \<not> startable j st)"
    using runAllLoop_Idle by blast
  have res: "\<forall>c. find (\<lambda>p. phase_id p = i) (experimentPhases st) = Some c \<and>
           (status c = completed \<or> status c = failed) \<longrightarrow>
           storeUpdated e (st, Awaiting i rest) = runAllLoop rest e st"
    by auto
  have wait: "\<not> (\<exists>c. find (\<lambda>p. phase_id p = i) (experimentPhases st) = Some c \<and>
               (status c = completed \<or> status c = failed)) \<longrightarrow>
         storeUpdated e (st, Awaiting i rest) = (st, Awaiting i rest)"
    using storeUpdated_waits[of i st e rest] by blast
  have two: "\<exists>A' B'.
            experimentPhases (fst (fold fireIntervalDuringRunAll hes (runAllPhases e st)))
              = [A', B'] \<and>
            phase_id A' = phase_id A \<and> phase_id B' = phase_id B \<and>
            (status B' \<noteq> pending \<longrightarrow> status A' = completed) \<and>
            (status A' = completed \<longrightarrow> status B' \<noteq> pending) \<and>
            \<not> (status A' = running \<and> status B' = running)"
    if h: "experimentPhases st = [A, B]" "phase_id A \<noteq> phase_id B"
      "status A = pending" "status B = pending" for hes
  proof -
    have "twoPhaseRun (phase_id A) (phase_id B) (runAllPhases e st)"
      by (rule twoPhaseRun_start[OF h(1) refl refl h(2) h(3) h(4)])
    then have "twoPhaseRun (phase_id A) (phase_id B)
                 (fold fireIntervalDuringRunAll hes (runAllPhases e st))"
      using h(2) by (intro twoPhaseRun_ticks)
    then show ?thesis unfolding twoPhaseRun_def by auto
  qed
  show ?thesis using snap aw idle res wait two by blast
qed

theorem runAllPhases_one_at_a_time_witness:
  "map status (experimentPhases (fst (runAllPhases (exampleEnv 0)
      (exampleWorkbench [examplePhase ''a'' pending 0 (1 / 5),
                         examplePhase ''b'' pending 0 (1 / 5)]))))
     = [running, pending]
   \<and> map status (experimentPhases (fst (fold fireIntervalDuringRunAll [(1, exampleEnv 200)]
      (runAllPhases (exampleEnv 0)
        (exampleWorkbench [examplePhase ''a'' pending 0 (1 / 5),
                           examplePhase ''b'' pending 0 (1 / 5)])))))
     = [completed, running]"
proof -
  let ?A = "examplePhase ''a'' pending 0 (1 / 5)"
  let ?B = "examplePhase ''b'' pending 0 (1 / 5)"
  let ?st = "exampleWorkbench [?A, ?B]"
  let ?X = "fst (fold fireIntervalDuringRunAll [(1, exampleEnv 200)]
                   (runAllPhases (exampleEnv 0) ?st))"
  have first: "map status (experimentPhases (fst (runAllPhases (exampleEnv 0) ?st)))
                 = [running, pending]"
    by code_simp
  have hyp: "experimentPhases ?st = [?A, ?B] \<and> phase_id ?A \<noteq> phase_id ?B \<and>
             status ?A = pending \<and> status ?B = pending"
    by (simp add: exampleWorkbench_def examplePhase_def)
  have "\<forall>hes. \<exists>A' B'.
            experimentPhases (fst (fold fireIntervalDuringRunAll hes
                                     (runAllPhases (exampleEnv 0) ?st))) = [A', B'] \<and>
            phase_id A' = phase_id ?A \<and> phase_id B' = phase_id ?B \<and>
            (status B' \<noteq> pending \<longrightarrow> status A' = completed) \<and>
            (status A' = completed \<longrightarrow> status B' \<noteq> pending) \<and>
            \<not> (status A' = running \<and> status B' = running)"
    using runAllPhases_one_at_a_time[of "exampleEnv 0" ?st _ _ _ ?A ?B] hyp by blast
  then obtain A' B' where ab: "experimentPhases ?X = [A', B']"
    "status B' \<noteq> pending \<longrightarrow> status A' = completed"
    by blast
  have "status (experimentPhases ?X ! 1) = running" by code_simp
  with ab have "status B' = running" "status A' = completed" by simp_all
  with ab(1) first show ?thesis by simp
qed

end
